theory Spec2Isabelle
  imports Main "HOL-Library.Sublist" "HOL-Library.Word"
begin

section \<open>Bytes, C strings and formatted output\<close>

text \<open>
  A C \<open>char\<close> or \<open>unsigned char\<close> is a \<^typ>\<open>char\<close> (eight bits). A C string is the list
  of the characters before its terminator; the terminator itself is the end of the list.
  Raw buffers, where a NUL byte is data like any other, are modelled separately below.
\<close>

definition NUL :: char where
  "NUL = CHR 0x00"

definition NL :: char where
  "NL = CHR 0x0A"

definition TAB :: char where
  "TAB = CHR 0x09"

text \<open>\<open>s[i]\<close> for a C string: \<open>None\<close> stands for the terminating NUL at \<open>i = length s\<close>.\<close>

definition cstr_at :: "string \<Rightarrow> nat \<Rightarrow> char option" where
  "cstr_at s i = (if i < length s then Some (s ! i) else None)"

text \<open>
  The C library's \<open>strstr(haystack, needle)\<close>: a pointer to the first occurrence of
  \<open>needle\<close> in \<open>haystack\<close> (here: the rest of the haystack from there on), or NULL.
  An empty needle is found at the start.
\<close>

fun strstr :: "string \<Rightarrow> string \<Rightarrow> string option" where
  "strstr [] needle = (if needle = [] then Some [] else None)"
| "strstr (h # hs) needle =
     (if prefix needle (h # hs) then Some (h # hs) else strstr hs needle)"

text \<open>The conversion \<open>%d\<close> of \<open>printf\<close>, for a C \<open>int\<close>.\<close>

fun show_nat :: "nat \<Rightarrow> string" where
  "show_nat n =
     (if n < 10 then [char_of (48 + n)]
      else show_nat (n div 10) @ [char_of (48 + n mod 10)])"

definition show_int :: "int \<Rightarrow> string" where
  "show_int i = (if i < 0 then CHR ''-'' # show_nat (nat (- i)) else show_nat (nat i))"

section \<open>The process and its environment\<close>

text \<open>What a run of the program leaves behind: both streams and the exit status.\<close>

record proc =
  stdout_text :: string
  stderr_text :: string
  exit_status :: int

definition EXIT_SUCCESS :: int where
  "EXIT_SUCCESS = 0"

definition EXIT_FAILURE :: int where
  "EXIT_FAILURE = 1"

text \<open>The second level names of \<open>sysctl\<close> under \<open>CTL_HW\<close> that the program asks for.\<close>

datatype hw_key = HW_MACHINE | HW_MODEL | HW_NCPU | HW_BYTEORDER | HW_NCPUONLINE | HW_SMT

record utsname =
  sysname :: string
  nodename :: string
  release :: string
  version :: string
  machine :: string

text \<open>
  Everything the operating system answers. A query that fails (\<open>sysctl\<close>, \<open>uname\<close>
  returning \<open>-1\<close>, \<open>open\<close> returning \<open>-1\<close>) is \<open>None\<close>. \<open>kernel_image\<close> is the byte
  stream of the file at \<open>BSD_KERN_PATH\<close>; \<open>stack_bytes\<close> is what the automatic array
  \<open>buf\<close> of \<open>get_inst_kern_ver\<close> holds before the first \<open>read\<close> (it is not initialised).
\<close>

record env =
  progname :: string
  errno_text :: string
  sysctl_string :: "hw_key \<Rightarrow> string option"
  sysctl_number :: "hw_key \<Rightarrow> 32 word option"
  uname_result :: "utsname option"
  uid :: "32 word"
  euid :: "32 word"
  kernel_image :: "string option"
  stack_bytes :: "nat \<Rightarrow> char"
  strdup_ok :: bool

text \<open>\<open>errx(EXIT_FAILURE, msg)\<close> and \<open>err(EXIT_FAILURE, msg)\<close> of \<open>err.h\<close>.\<close>

definition errx :: "env \<Rightarrow> string \<Rightarrow> proc" where
  "errx e msg =
     \<lparr>stdout_text = [], stderr_text = progname e @ '': '' @ msg @ [NL],
      exit_status = EXIT_FAILURE\<rparr>"

definition err :: "env \<Rightarrow> string \<Rightarrow> proc" where
  "err e msg =
     \<lparr>stdout_text = [],
      stderr_text = progname e @ '': '' @ msg @ '': '' @ errno_text e @ [NL],
      exit_status = EXIT_FAILURE\<rparr>"

text \<open>A run that reaches the end of \<open>main\<close> having written \<open>out\<close> and \<open>er\<close>.\<close>

definition finished :: "string \<Rightarrow> string \<Rightarrow> proc" where
  "finished out er = \<lparr>stdout_text = out, stderr_text = er, exit_status = 0\<rparr>"

section \<open>System facts\<close>

text \<open>The two \<open>sysctl\<close> wrappers: \<open>Inl\<close> is the process ended by \<open>err\<close>.\<close>

definition get_sysctl_string :: "env \<Rightarrow> hw_key \<Rightarrow> proc + string" where
  "get_sysctl_string e key_id =
     (case sysctl_string e key_id of
        None \<Rightarrow> Inl (err e ''sysctl()'')
      | Some s \<Rightarrow> Inr s)"

definition get_sysctl_number :: "env \<Rightarrow> hw_key \<Rightarrow> proc + 32 word" where
  "get_sysctl_number e key_id =
     (case sysctl_number e key_id of
        None \<Rightarrow> Inl (err e ''sysctl()'')
      | Some n \<Rightarrow> Inr n)"

definition get_uname_info :: "env \<Rightarrow> bool \<Rightarrow> proc" where
  "get_uname_info e only_version =
     (case uname_result e of
        None \<Rightarrow> err e ''uname()''
      | Some uts \<Rightarrow>
          if only_version
          then finished (sysname uts @ '' '' @ release uts @ [NL]) []
          else finished (sysname uts @ '' '' @ nodename uts @ '' '' @ release uts @ '' ''
                         @ version uts @ '' '' @ machine uts @ [NL]) [])"

section \<open>The installed kernel's version string\<close>

text \<open>
  The array \<open>unsigned char buf[2048]\<close> is a store from indices to bytes. Only the indices
  below \<open>BUFSZ\<close> belong to the array: a read at any other index is outside the object,
  and the model says so (\<open>None\<close>) instead of inventing a byte.
\<close>

type_synonym buffer = "nat \<Rightarrow> char"

definition BUFSZ :: nat where
  "BUFSZ = 2048"

definition peek :: "buffer \<Rightarrow> nat \<Rightarrow> char option" where
  "peek buf i = (if i < BUFSZ then Some (buf i) else None)"

text \<open>
  \<open>read(fd, buf, sizeof(buf))\<close> on a regular file hands over the next bytes of the file,
  at most \<open>BUFSZ\<close> of them, and stores them at the start of \<open>buf\<close>. The bytes of \<open>buf\<close>
  from the returned count on keep what they held. The image of the model is the sequence
  of bytes that the reads deliver until one returns \<open>0\<close> (the end of the file) or \<open>-1\<close>:
  the loop leaves through the same test \<open>nread > 0\<close> in both cases.
\<close>

definition read_into :: "string \<Rightarrow> buffer \<Rightarrow> buffer" where
  "read_into chunk buf = (\<lambda>i. if i < length chunk then chunk ! i else buf i)"

text \<open>
  \<open>strpchr(haystack, c)\<close> with \<open>haystack = buf + q\<close>; \<open>i\<close> is the loop counter. It stops at
  the first NUL byte, and gives \<open>0\<close> both when \<open>c\<close> is the first byte and when there is no
  \<open>c\<close> before the NUL.
\<close>

function strpchr :: "buffer \<Rightarrow> nat \<Rightarrow> char \<Rightarrow> nat \<Rightarrow> nat option" where
  "strpchr buf q c i =
     (case peek buf (q + i) of
        None \<Rightarrow> None
      | Some b \<Rightarrow>
          if b = NUL then Some 0
          else if b = c then Some i
          else strpchr buf q c (Suc i))"
  by pat_completeness auto
termination
  by (relation "measure (\<lambda>(buf, q, c, i). BUFSZ - (q + i))")
     (auto simp: peek_def split: if_splits)

declare strpchr.simps [simp del]

primrec consltill :: "nat \<Rightarrow> nat \<Rightarrow> nat" where
  "consltill p 0 = p"
| "consltill p (Suc n) = consltill (Suc p) n"

text \<open>What \<open>strdup(buf + q)\<close> copies: the bytes from \<open>q\<close> up to the first NUL.\<close>

function cstring_at :: "buffer \<Rightarrow> nat \<Rightarrow> string option" where
  "cstring_at buf q =
     (case peek buf q of
        None \<Rightarrow> None
      | Some b \<Rightarrow>
          if b = NUL then Some []
          else map_option ((#) b) (cstring_at buf (Suc q)))"
  by pat_completeness auto
termination
  by (relation "measure (\<lambda>(buf, q). BUFSZ - q)")
     (auto simp: peek_def split: if_splits)

declare cstring_at.simps [simp del]

text \<open>
  The test \<open>*p == '@' && *(p + 1) == '(' && *(p + 2) == '#' && *(p + 3) == ')'\<close>, read
  left to right with the short circuit of \<open>&&\<close>.
\<close>

datatype probe = Hit | Miss | Outside

definition at_marker :: "buffer \<Rightarrow> nat \<Rightarrow> probe" where
  "at_marker buf p =
     (case peek buf p of None \<Rightarrow> Outside | Some a \<Rightarrow>
      if a \<noteq> CHR ''@'' then Miss else
      case peek buf (p + 1) of None \<Rightarrow> Outside | Some b \<Rightarrow>
      if b \<noteq> CHR ''('' then Miss else
      case peek buf (p + 2) of None \<Rightarrow> Outside | Some c \<Rightarrow>
      if c \<noteq> CHR ''#'' then Miss else
      case peek buf (p + 3) of None \<Rightarrow> Outside | Some d \<Rightarrow>
      if d \<noteq> CHR '')'' then Miss else Hit)"

text \<open>The inner loop \<open>for (p = buf, end = p + nread; p < end; p++)\<close>, up to its match.\<close>

datatype scan = Found nat | Absent | Overrun

function scan_chunk :: "buffer \<Rightarrow> nat \<Rightarrow> nat \<Rightarrow> scan" where
  "scan_chunk buf nread p =
     (if p < nread then
        (case at_marker buf p of
           Hit \<Rightarrow> Found p
         | Outside \<Rightarrow> Overrun
         | Miss \<Rightarrow> scan_chunk buf nread (Suc p))
      else Absent)"
  by pat_completeness auto
termination
  by (relation "measure (\<lambda>(buf, nread, p). nread - p)") auto

declare scan_chunk.simps [simp del]

text \<open>
  The system calls the function makes, in order, and how a call of it ends: it returns a
  value, it ends the process (\<open>err\<close>, \<open>errx\<close>), or it reads outside \<open>buf\<close>, after which C
  promises nothing.
\<close>

datatype event = EvOpen | EvRead nat | EvClose | EvStrdup

datatype 'a outcome = Returned 'a | Fatal proc | Undefined

text \<open>The body of the match: lines 122 to 131.\<close>

definition on_match :: "env \<Rightarrow> buffer \<Rightarrow> nat \<Rightarrow> event list \<Rightarrow> string option outcome \<times> event list" where
  "on_match e buf p0 tr =
     (let p = consltill p0 4 in
      case strpchr buf p NL 0 of
        None \<Rightarrow> (Undefined, tr)
      | Some pos_dist \<Rightarrow>
          let buf' = (if pos_dist > 0 then buf(p + pos_dist := NUL) else buf);
              tr' = tr @ [EvClose]
          in case cstring_at buf' p of
               None \<Rightarrow> (Undefined, tr')
             | Some s \<Rightarrow>
                 if strdup_ok e then (Returned (Some s), tr' @ [EvStrdup])
                 else (Fatal (err e ''strdup()''), tr' @ [EvStrdup]))"

text \<open>
  The loop \<open>while ((nread = read(fd, buf, sizeof(buf))) > 0)\<close>; \<open>file\<close> is what is left to
  read behind the descriptor.
\<close>

function read_loop :: "env \<Rightarrow> buffer \<Rightarrow> string \<Rightarrow> event list \<Rightarrow> string option outcome \<times> event list" where
  "read_loop e buf file tr =
     (let chunk = take BUFSZ file; nread = length chunk; tr' = tr @ [EvRead nread] in
      if nread > 0 then
        (let buf' = read_into chunk buf in
         case scan_chunk buf' nread 0 of
           Found p \<Rightarrow> on_match e buf' p tr'
         | Overrun \<Rightarrow> (Undefined, tr')
         | Absent \<Rightarrow> read_loop e buf' (drop BUFSZ file) tr')
      else (Returned None, tr' @ [EvClose]))"
  by pat_completeness auto
termination
  by (relation "measure (\<lambda>(e, buf, file, tr). length file)") (auto simp: BUFSZ_def)

declare read_loop.simps [simp del]

text \<open>
  \<open>get_inst_kern_ver\<close>, built with \<open>REQUIRE_ROOT\<close> (the default, when \<open>BSD_KERN_PATH\<close> is
  not given to the compiler).
\<close>

definition get_inst_kern_ver :: "env \<Rightarrow> string option outcome \<times> event list" where
  "get_inst_kern_ver e =
     (if uid e \<noteq> 0 then
        (if euid e \<noteq> 0
         then (Fatal (errx e (progname e @ '' must be run as root'')), [])
         else (Fatal (errx e (''getuid(): '' @ show_int (sint (uid e)) @ '' != geteuid(): ''
                              @ show_int (sint (euid e)))), []))
      else
        case kernel_image e of
          None \<Rightarrow> (Fatal (err e ''open()''), [EvOpen])
        | Some file \<Rightarrow> read_loop e (stack_bytes e) file [EvOpen])"

text \<open>Whether the descriptor is open after a sequence of calls.\<close>

fun fd_open :: "event list \<Rightarrow> bool \<Rightarrow> bool" where
  "fd_open [] b = b"
| "fd_open (EvOpen # es) b = fd_open es True"
| "fd_open (EvClose # es) b = fd_open es False"
| "fd_open (ev # es) b = fd_open es b"

section \<open>The dispatcher\<close>

record command_option =
  code :: int
  cmd :: "string option"

text \<open>
  The loop of \<open>match_args\<close> over the table, \<open>arg\<close> being \<open>argv[1]\<close> (\<open>None\<close> for NULL).
  Running off a table without a terminating entry, and \<open>strstr\<close> on a NULL token, are
  outside what C defines: \<open>None\<close>.
\<close>

fun scan_table :: "command_option list \<Rightarrow> string option \<Rightarrow> int option" where
  "scan_table [] arg = None"
| "scan_table (c # cs) arg =
     (if code c \<noteq> 0 \<or> cmd c \<noteq> None then
        (case arg of
           None \<Rightarrow> Some 0
         | Some a \<Rightarrow>
             (case cmd c of
                None \<Rightarrow> None
              | Some tok \<Rightarrow>
                  if strstr tok a \<noteq> None then Some (code c) else scan_table cs arg))
      else Some 0)"

text \<open>
  \<open>argv\<close> is the list \<open>argv[0], ..., argv[argc - 1]\<close>; the NULL after it is the end of
  the list. With an empty list \<open>argv + 1\<close> points behind the NULL.
\<close>

definition match_args :: "command_option list \<Rightarrow> string list \<Rightarrow> int option" where
  "match_args cb argv =
     (case argv of
        [] \<Rightarrow> None
      | prog # args \<Rightarrow>
          (case args of
             [] \<Rightarrow> Some (- 1)
           | a # rest \<Rightarrow>
               if cstr_at a 0 = Some CHR ''-'' \<and> cstr_at a 1 = None then Some (- 2)
               else scan_table cb (Some a)))"

section \<open>The entry point\<close>

definition usage_text :: string where
  "usage_text =
     ''usage'' @ [NL] @
     '' -machine'' @ [TAB] @ ''machine architecture'' @ [NL] @
     '' -model'' @ [TAB, TAB] @ ''cpu model'' @ [NL] @
     '' -ncpu'' @ [TAB, TAB] @ ''number of cpus'' @ [NL] @
     '' -border'' @ [TAB] @ ''byte order'' @ [NL] @
     '' -oncpu'' @ [TAB, TAB] @ ''number of online cpus'' @ [NL] @
     '' -issmt'' @ [TAB, TAB] @ ''is smt enabled?'' @ [NL] @
     '' -uname'' @ [TAB, TAB] @ ''equivalent of uname -a'' @ [NL] @
     '' -bsd'' @ [TAB, TAB] @ ''openbsd version'' @ [NL] @
     '' -ikern'' @ [TAB, TAB] @ ''currently installed kernel'' @ [NL] @
     '' -help'' @ [TAB, TAB] @ ''show me'' @ [NL]"

definition print_usage :: "int \<Rightarrow> proc" where
  "print_usage status =
     (if status = EXIT_SUCCESS
      then \<lparr>stdout_text = usage_text, stderr_text = [], exit_status = status\<rparr>
      else \<lparr>stdout_text = [], stderr_text = usage_text, exit_status = status\<rparr>)"

definition cb :: "command_option list" where
  "cb =
     [\<lparr>code = 1, cmd = Some ''-machine''\<rparr>,
      \<lparr>code = 2, cmd = Some ''-model''\<rparr>,
      \<lparr>code = 3, cmd = Some ''-ncpu''\<rparr>,
      \<lparr>code = 4, cmd = Some ''-border''\<rparr>,
      \<lparr>code = 5, cmd = Some ''-oncpu''\<rparr>,
      \<lparr>code = 6, cmd = Some ''-issmt''\<rparr>,
      \<lparr>code = 7, cmd = Some ''-uname''\<rparr>,
      \<lparr>code = 8, cmd = Some ''-bsdver''\<rparr>,
      \<lparr>code = 9, cmd = Some ''-ikern''\<rparr>,
      \<lparr>code = 10, cmd = Some ''-help''\<rparr>,
      \<lparr>code = 0, cmd = None\<rparr>]"

text \<open>The inner \<open>switch (byte_out)\<close>.\<close>

definition byte_order :: "32 word \<Rightarrow> string" where
  "byte_order byte_out =
     (if byte_out = 1234 then ''little''
      else if byte_out = 4321 then ''big''
      else ''mixed'')"

text \<open>
  \<open>main\<close>: \<open>None\<close> is a run that C does not define. \<open>*(argv + 1)\<close> in the two \<open>errx\<close>
  calls is printed with \<open>%s\<close>, which needs a string there.
\<close>

definition arg1 :: "string list \<Rightarrow> string option" where
  "arg1 argv = (case argv of prog # a # rest \<Rightarrow> Some a | _ \<Rightarrow> None)"

definition quoted :: "string \<Rightarrow> string" where
  "quoted s = [CHR 0x27] @ s @ [CHR 0x27]"

definition main :: "env \<Rightarrow> string list \<Rightarrow> proc option" where
  "main e argv =
     (case match_args cb argv of
        None \<Rightarrow> None
      | Some c \<Rightarrow>
          if c = 1 then
            (case get_sysctl_string e HW_MACHINE of
               Inl p \<Rightarrow> Some p | Inr s \<Rightarrow> Some (finished (s @ [NL]) []))
          else if c = 2 then
            (case get_sysctl_string e HW_MODEL of
               Inl p \<Rightarrow> Some p | Inr s \<Rightarrow> Some (finished (s @ [NL]) []))
          else if c = 3 then
            (case get_sysctl_number e HW_NCPU of
               Inl p \<Rightarrow> Some p | Inr n \<Rightarrow> Some (finished (show_int (sint n) @ [NL]) []))
          else if c = 4 then
            (case get_sysctl_number e HW_BYTEORDER of
               Inl p \<Rightarrow> Some p
             | Inr byte_out \<Rightarrow> Some (finished (byte_order byte_out @ [NL]) []))
          else if c = 5 then
            (case get_sysctl_number e HW_NCPUONLINE of
               Inl p \<Rightarrow> Some p | Inr n \<Rightarrow> Some (finished (show_int (sint n) @ [NL]) []))
          else if c = 6 then
            (case get_sysctl_number e HW_SMT of
               Inl p \<Rightarrow> Some p
             | Inr n \<Rightarrow> Some (finished ((if n \<noteq> 0 then ''yes'' else ''no'') @ [NL]) []))
          else if c = 7 then Some (get_uname_info e False)
          else if c = 8 then Some (get_uname_info e True)
          else if c = 9 then
            (case fst (get_inst_kern_ver e) of
               Undefined \<Rightarrow> None
             | Fatal p \<Rightarrow> Some p
             | Returned None \<Rightarrow>
                 Some (finished [] (''unknown (I can'' @ [CHR 0x27] @ ''t find it!)'' @ [NL]))
             | Returned (Some kern_ver) \<Rightarrow> Some (finished (kern_ver @ [NL]) []))
          else if c = 10 then Some (print_usage EXIT_SUCCESS)
          else if c = 0 then
            (case arg1 argv of
               None \<Rightarrow> None
             | Some a \<Rightarrow> Some (errx e (quoted a @ '' option is invalid.'')))
          else if c = - 1 then Some (print_usage EXIT_FAILURE)
          else if c = - 2 then
            (case arg1 argv of
               None \<Rightarrow> None
             | Some a \<Rightarrow> Some (errx e (quoted a @ '' expects an option.'')))
          else Some (finished [] []))"

section \<open>Notions used to state the properties\<close>

text \<open>The matching rule of the dispatcher in words: the entry's token contains the argument.\<close>

definition contains_arg :: "string \<Rightarrow> command_option \<Rightarrow> bool" where
  "contains_arg a c = (case cmd c of None \<Rightarrow> False | Some tok \<Rightarrow> sublist a tok)"

definition marker :: string where
  "marker = ''@(#)''"

text \<open>
  Position \<open>p\<close> of a byte stream that is read in chunks of \<open>BUFSZ\<close>: the bytes from \<open>p\<close>
  to the end of \<open>p\<close>'s chunk, four at most, all agree with the marker. With four bytes
  this is an occurrence of the marker; with fewer, the chunk ends in the middle of one.
\<close>

definition marker_starts :: "string \<Rightarrow> nat \<Rightarrow> bool" where
  "marker_starts stream p =
     prefix (take (min 4 (BUFSZ - p mod BUFSZ)) (drop p stream)) marker"

text \<open>A host to run the program on: root, an image with a version string in it.\<close>

definition amd64_host :: env where
  "amd64_host =
     \<lparr>progname = ''sysver'',
      errno_text = ''Cannot allocate memory'',
      sysctl_string = (\<lambda>k. if k = HW_MACHINE then Some ''amd64''
                            else if k = HW_MODEL then Some ''AMD EPYC 7313''
                            else None),
      sysctl_number = (\<lambda>k. if k = HW_BYTEORDER then Some 1234
                            else if k = HW_NCPU then Some 8
                            else if k = HW_NCPUONLINE then Some 4
                            else if k = HW_SMT then Some 0
                            else None),
      uname_result = Some \<lparr>sysname = ''OpenBSD'', nodename = ''puffy'', release = ''7.4'',
                             version = ''GENERIC.MP#1397'', machine = ''amd64''\<rparr>,
      uid = 0,
      euid = 0,
      kernel_image = Some (''bsd'' @ [NUL] @ ''@(#)OpenBSD 7.4'' @ [NL] @ ''more''),
      stack_bytes = (\<lambda>i. NUL),
      strdup_ok = True\<rparr>"

text \<open>The calls that are reads.\<close>

fun is_read :: "event \<Rightarrow> bool" where
  "is_read (EvRead n) = True"
| "is_read ev = False"

text \<open>Kernel images to run the extractor on.\<close>

definition two_markers_image :: string where
  "two_markers_image = ''@(#)x'' @ [NL] @ ''@(#)OpenBSD 7.4'' @ [NL]"

definition nul_inside_image :: string where
  "nul_inside_image = ''@(#)ab'' @ [NUL] @ ''cd'' @ [NL]"

definition newline_first_image :: string where
  "newline_first_image = ''@(#)'' @ [NL] @ ''abc''"

definition short_image :: string where
  "short_image = ''@(#)ab''"

definition padded_image :: string where
  "padded_image = replicate 6 CHR ''x'' @ ''c'' @ replicate 2041 NUL @ ''@(#)ab''"

definition cut_marker_image :: string where
  "cut_marker_image = ''x(#)hello'' @ [NL] @ replicate 2038 CHR ''.'' @ ''@''"

section \<open>The dispatcher: properties\<close>

lemma strstr_None_iff: "strstr h n = None \<longleftrightarrow> \<not> sublist n h"
  by (induction h) (auto simp: sublist_Cons_right)

lemma bare_dash_iff: "(cstr_at a 0 = Some CHR ''-'' \<and> cstr_at a 1 = None) \<longleftrightarrow> a = ''-''"
  by (cases a) (auto simp: cstr_at_def)

lemma match_args_arg:
  "match_args tbl (prog # a # rest) =
     (if a = ''-'' then Some (- 2) else scan_table tbl (Some a))"
  unfolding match_args_def using bare_dash_iff[of a] by simp

lemma match_args_no_operand: "match_args tbl [prog] = Some (- 1)"
  by (simp add: match_args_def)

lemma scan_table_find:
  assumes "\<forall>c\<in>set tbl. cmd c \<noteq> None"
  shows "scan_table (tbl @ [\<lparr>code = 0, cmd = None\<rparr>]) (Some a) =
           Some (case find (contains_arg a) (tbl @ [\<lparr>code = 0, cmd = None\<rparr>]) of
                   None \<Rightarrow> 0 | Some c \<Rightarrow> code c)"
  using assms
proof (induction tbl)
  case Nil
  show ?case by (simp add: contains_arg_def)
next
  case (Cons c cs)
  then obtain tok where tok: "cmd c = Some tok" by auto
  from Cons have IH: "scan_table (cs @ [\<lparr>code = 0, cmd = None\<rparr>]) (Some a) =
           Some (case find (contains_arg a) (cs @ [\<lparr>code = 0, cmd = None\<rparr>]) of
                   None \<Rightarrow> 0 | Some c \<Rightarrow> code c)" by simp
  have c: "contains_arg a c = sublist a tok"
    by (simp add: contains_arg_def tok)
  show ?case
    by (simp add: tok IH strstr_None_iff c)
qed

lemma cb_split: "cb = butlast cb @ [\<lparr>code = 0, cmd = None\<rparr>]"
  by (simp add: cb_def)

lemma cb_tokens: "\<forall>c\<in>set (butlast cb). cmd c \<noteq> None"
  by (simp add: cb_def)

lemma scan_cb_find:
  "scan_table cb (Some a) = Some (case find (contains_arg a) cb of None \<Rightarrow> 0 | Some c \<Rightarrow> code c)"
  using scan_table_find[OF cb_tokens, of a] cb_split by simp

lemma main_code_0:
  "match_args cb (prog # a # rest) = Some 0 \<Longrightarrow>
     main e (prog # a # rest) = Some (errx e (quoted a @ '' option is invalid.''))"
  by (simp add: main_def arg1_def)

lemma find_mod: "find (contains_arg ''mod'') cb = Some \<lparr>code = 2, cmd = Some ''-model''\<rparr>"
  by (simp add: cb_def contains_arg_def sublist_code)

lemma find_xyz: "find (contains_arg ''xyz'') cb = None"
  by (simp add: cb_def contains_arg_def sublist_code)

lemma own_entry_first:
  "\<forall>c\<in>set cb. \<forall>tok. cmd c = Some tok \<longrightarrow> find (contains_arg tok) cb = Some c"
  by (simp add: cb_def contains_arg_def sublist_code)

lemma usage_ne: "progname e @ '': '' @ quoted ''-'' @ '' expects an option.'' @ [NL] \<noteq> usage_text"
proof
  assume "progname e @ '': '' @ quoted ''-'' @ '' expects an option.'' @ [NL] = usage_text"
  then have "rev (progname e @ '': '' @ quoted ''-'' @ '' expects an option.'' @ [NL]) = rev usage_text"
    by simp
  then have "take 2 (rev (progname e @ '': '' @ quoted ''-'' @ '' expects an option.'' @ [NL]))
               = take 2 (rev usage_text)" by simp
  then show False by (simp add: usage_text_def quoted_def NL_def)
qed

lemma border_4: "match_args cb [''sysver'', ''-border''] = Some 4"
  by (simp add: match_args_arg cb_def)

text \<open>
  C2: with an argument after the program name that is not the bare dash, the dispatcher
  returns the code of the first table entry, in table order, whose token contains the
  argument as a contiguous substring, and \<open>0\<close> when no token contains it; on \<open>0\<close> the
  program ends with the message that the option is invalid, which quotes the argument.
\<close>

theorem dispatch_first_containing_token:
  assumes "a \<noteq> ''-''"
  shows "match_args cb (prog # a # rest) =
           Some (case find (contains_arg a) cb of None \<Rightarrow> 0 | Some c \<Rightarrow> code c)
         \<and> (find (contains_arg a) cb = None \<longrightarrow>
              main e (prog # a # rest) = Some (errx e (quoted a @ '' option is invalid.'')))"
proof -
  have m: "match_args cb (prog # a # rest) =
           Some (case find (contains_arg a) cb of None \<Rightarrow> 0 | Some c \<Rightarrow> code c)"
    using assms by (simp add: match_args_arg scan_cb_find)
  show ?thesis
  proof (intro conjI impI)
    show "match_args cb (prog # a # rest) =
           Some (case find (contains_arg a) cb of None \<Rightarrow> 0 | Some c \<Rightarrow> code c)" by (rule m)
  next
    assume "find (contains_arg a) cb = None"
    then have "match_args cb (prog # a # rest) = Some 0" using m by simp
    then show "main e (prog # a # rest) = Some (errx e (quoted a @ '' option is invalid.''))"
      by (rule main_code_0)
  qed
qed

theorem dispatch_first_containing_token_witness:
  "''mod'' \<noteq> ''-'' \<and> match_args cb [''sysver'', ''mod''] = Some 2
   \<and> ''xyz'' \<noteq> ''-'' \<and> find (contains_arg ''xyz'') cb = None
   \<and> match_args cb [''sysver'', ''xyz''] = Some 0
   \<and> main amd64_host [''sysver'', ''xyz''] =
       Some \<lparr>stdout_text = [], stderr_text = ''sysver: 'xyz' option is invalid.'' @ [NL],
             exit_status = 1\<rparr>"
  using dispatch_first_containing_token[of "''mod''" "''sysver''" "[]" amd64_host]
        dispatch_first_containing_token[of "''xyz''" "''sysver''" "[]" amd64_host]
  by (simp add: find_mod find_xyz errx_def quoted_def amd64_host_def EXIT_FAILURE_def)

text \<open>
  C5: each of the ten flag tokens of the table, given in full as the first argument,
  yields its own code, \<open>1\<close> to \<open>10\<close> in table order: the first entry whose token contains
  an exact token is that token's own entry.
\<close>

theorem exact_flags_dispatch:
  "match_args cb (prog # ''-machine'' # rest) = Some 1
   \<and> match_args cb (prog # ''-model'' # rest) = Some 2
   \<and> match_args cb (prog # ''-ncpu'' # rest) = Some 3
   \<and> match_args cb (prog # ''-border'' # rest) = Some 4
   \<and> match_args cb (prog # ''-oncpu'' # rest) = Some 5
   \<and> match_args cb (prog # ''-issmt'' # rest) = Some 6
   \<and> match_args cb (prog # ''-uname'' # rest) = Some 7
   \<and> match_args cb (prog # ''-bsdver'' # rest) = Some 8
   \<and> match_args cb (prog # ''-ikern'' # rest) = Some 9
   \<and> match_args cb (prog # ''-help'' # rest) = Some 10
   \<and> (\<forall>c\<in>set cb. \<forall>tok. cmd c = Some tok \<longrightarrow> find (contains_arg tok) cb = Some c)"
  using own_entry_first by (simp add: match_args_arg cb_def)

theorem exact_flags_dispatch_witness:
  "\<lparr>code = 5, cmd = Some ''-oncpu''\<rparr> \<in> set cb
   \<and> find (contains_arg ''-oncpu'') cb = Some \<lparr>code = 5, cmd = Some ''-oncpu''\<rparr>
   \<and> match_args cb [''sysver'', ''-oncpu''] = Some 5"
proof -
  have mem: "\<lparr>code = 5, cmd = Some ''-oncpu''\<rparr> \<in> set cb"
    by (simp add: cb_def)
  from exact_flags_dispatch[of "''sysver''" "[]"]
  have all: "\<forall>c\<in>set cb. \<forall>tok. cmd c = Some tok \<longrightarrow> find (contains_arg tok) cb = Some c"
    and m: "match_args cb [''sysver'', ''-oncpu''] = Some 5"
    by simp_all
  from all mem have "find (contains_arg ''-oncpu'') cb = Some \<lparr>code = 5, cmd = Some ''-oncpu''\<rparr>"
    by auto
  with mem m show ?thesis by simp
qed

text \<open>
  C8: with the single character \<open>-\<close> as first argument the dispatcher returns \<open>-2\<close>, and
  the program ends with a non-zero status and the message that the dash expects an
  option on the error stream; without any argument the code is \<open>-1\<close> and the error stream
  gets the usage text instead, so the two runs differ.
\<close>

theorem bare_dash_expects_option:
  "match_args cb (prog # ''-'' # rest) = Some (- 2)
   \<and> main e (prog # ''-'' # rest) =
       Some \<lparr>stdout_text = [],
             stderr_text = progname e @ '': '' @ quoted ''-'' @ '' expects an option.'' @ [NL],
             exit_status = EXIT_FAILURE\<rparr>
   \<and> EXIT_FAILURE \<noteq> 0
   \<and> match_args cb [prog] = Some (- 1)
   \<and> main e [prog] =
       Some \<lparr>stdout_text = [], stderr_text = usage_text, exit_status = EXIT_FAILURE\<rparr>
   \<and> main e (prog # ''-'' # rest) \<noteq> main e [prog]"
  using usage_ne[of e]
  by (simp add: match_args_arg match_args_no_operand main_def arg1_def errx_def
      print_usage_def EXIT_FAILURE_def EXIT_SUCCESS_def)

text \<open>
  C10: with the empty string as first argument the dispatcher returns \<open>1\<close>, the code of
  \<open>-machine\<close>, and the program prints the hardware architecture (when the query for it
  succeeds) instead of rejecting the option.
\<close>

theorem empty_argument_selects_machine:
  "match_args cb (prog # [] # rest) = Some 1
   \<and> (\<forall>m. sysctl_string e HW_MACHINE = Some m \<longrightarrow>
          main e (prog # [] # rest) =
            Some \<lparr>stdout_text = m @ [NL], stderr_text = [], exit_status = 0\<rparr>)"
  by (simp add: match_args_arg cb_def main_def get_sysctl_string_def finished_def)

theorem empty_argument_selects_machine_witness:
  "match_args cb [''sysver'', []] = Some 1
   \<and> sysctl_string amd64_host HW_MACHINE = Some ''amd64''
   \<and> main amd64_host [''sysver'', []] =
        Some \<lparr>stdout_text = ''amd64'' @ [NL], stderr_text = [], exit_status = 0\<rparr>"
  using empty_argument_selects_machine[of "''sysver''" "[]" amd64_host]
  by (simp add: amd64_host_def)

section \<open>The entry point: properties\<close>

text \<open>
  C6: when code \<open>4\<close> is selected and the query for the byte order answers \<open>v\<close>, the
  program prints \<open>little\<close> for \<open>1234\<close>, \<open>big\<close> for \<open>4321\<close> and \<open>mixed\<close> for every other
  \<open>v\<close>, followed by a newline, on standard output.
\<close>

theorem byte_order_mapping:
  assumes "match_args cb argv = Some 4"
      and "sysctl_number e HW_BYTEORDER = Some v"
  shows "main e argv =
           Some \<lparr>stdout_text = (if v = 1234 then ''little''
                                 else if v = 4321 then ''big''
                                 else ''mixed'') @ [NL],
                 stderr_text = [], exit_status = 0\<rparr>"
  using assms by (simp add: main_def get_sysctl_number_def finished_def byte_order_def)

theorem byte_order_mapping_witness:
  "match_args cb [''sysver'', ''-border''] = Some 4
   \<and> sysctl_number amd64_host HW_BYTEORDER = Some 1234
   \<and> main amd64_host [''sysver'', ''-border''] =
        Some \<lparr>stdout_text = ''little'' @ [NL], stderr_text = [], exit_status = 0\<rparr>
   \<and> main (amd64_host\<lparr>sysctl_number := (\<lambda>k. Some 4321)\<rparr>) [''sysver'', ''-border''] =
        Some \<lparr>stdout_text = ''big'' @ [NL], stderr_text = [], exit_status = 0\<rparr>
   \<and> main (amd64_host\<lparr>sysctl_number := (\<lambda>k. Some 9999)\<rparr>) [''sysver'', ''-border''] =
        Some \<lparr>stdout_text = ''mixed'' @ [NL], stderr_text = [], exit_status = 0\<rparr>"
  using byte_order_mapping[OF border_4, of amd64_host 1234]
        byte_order_mapping[OF border_4, of "amd64_host\<lparr>sysctl_number := (\<lambda>k. Some 4321)\<rparr>" 4321]
        byte_order_mapping[OF border_4, of "amd64_host\<lparr>sysctl_number := (\<lambda>k. Some 9999)\<rparr>" 9999]
  by (simp add: amd64_host_def border_4)

section \<open>The installed kernel's version string: properties\<close>

lemma NL_not_NUL [simp]: "NL \<noteq> NUL" "NUL \<noteq> NL"
  by (simp_all add: NL_def NUL_def)

lemma consltill_add [simp]: "consltill p n = p + n"
  by (induction n arbitrary: p) simp_all

lemma read_into_less [simp]: "i < length chunk \<Longrightarrow> read_into chunk buf i = chunk ! i"
  by (simp add: read_into_def)

lemma read_into_ge [simp]: "length chunk \<le> i \<Longrightarrow> read_into chunk buf i = buf i"
  by (simp add: read_into_def)

lemma scan_chunk_Absent:
  "(\<And>r. p \<le> r \<Longrightarrow> r < n \<Longrightarrow> at_marker buf r = Miss) \<Longrightarrow> scan_chunk buf n p = Absent"
proof (induction buf n p rule: scan_chunk.induct)
  case (1 buf nread p)
  show ?case
  proof (cases "p < nread")
    case True
    then have m: "at_marker buf p = Miss" using "1.prems" by simp
    have "scan_chunk buf nread (Suc p) = Absent"
      using "1.IH"[OF True m] "1.prems" by simp
    then show ?thesis using True m by (subst scan_chunk.simps) simp
  next
    case False
    then show ?thesis by (subst scan_chunk.simps) simp
  qed
qed

lemma scan_chunk_Found:
  "p \<le> q \<Longrightarrow> q < n \<Longrightarrow> (\<And>r. p \<le> r \<Longrightarrow> r < q \<Longrightarrow> at_marker buf r = Miss)
     \<Longrightarrow> at_marker buf q = Hit \<Longrightarrow> scan_chunk buf n p = Found q"
proof (induction buf n p rule: scan_chunk.induct)
  case (1 buf nread p)
  show ?case
  proof (cases "p = q")
    case True
    then show ?thesis using "1.prems" by (subst scan_chunk.simps) simp
  next
    case False
    then have lt: "p < q" using "1.prems" by simp
    then have pn: "p < nread" using "1.prems" by simp
    have m: "at_marker buf p = Miss" using "1.prems" lt by simp
    have "scan_chunk buf nread (Suc p) = Found q"
      using "1.IH"[OF pn m] "1.prems" lt by simp
    then show ?thesis using pn m by (subst scan_chunk.simps) simp
  qed
qed

lemma strpchr_finds:
  assumes "\<And>j. j < n \<Longrightarrow> buf (q + j) \<noteq> NUL \<and> buf (q + j) \<noteq> c"
      and "buf (q + n) = c" and "c \<noteq> NUL" and "q + n < BUFSZ" and "i \<le> n"
  shows "strpchr buf q c i = Some n"
  using assms(5)
proof (induction "n - i" arbitrary: i)
  case 0
  then have "i = n" by simp
  then show ?case using assms(2,3,4) by (subst strpchr.simps) (simp add: peek_def)
next
  case (Suc d)
  then have lt: "i < n" by simp
  then have b: "buf (q + i) \<noteq> NUL" "buf (q + i) \<noteq> c" using assms(1) by simp_all
  have "strpchr buf q c (Suc i) = Some n"
    using Suc.hyps(1)[of "Suc i"] Suc.hyps(2) lt by simp
  then show ?case using b lt assms(4) by (subst strpchr.simps) (simp add: peek_def)
qed

lemma cstring_at_reads:
  assumes "\<And>j. j < length s \<Longrightarrow> buf (q + j) = s ! j"
      and "buf (q + length s) = NUL" and "NUL \<notin> set s" and "q + length s < BUFSZ"
      and "i \<le> length s"
  shows "cstring_at buf (q + i) = Some (drop i s)"
  using assms(5)
proof (induction "length s - i" arbitrary: i)
  case 0
  then have "i = length s" by simp
  then show ?case using assms(2,4) by (subst cstring_at.simps) (simp add: peek_def)
next
  case (Suc d)
  then have lt: "i < length s" by simp
  have b: "buf (q + i) = s ! i" "s ! i \<noteq> NUL"
    using assms(1)[OF lt] apply simp
    using assms(3) lt by (metis nth_mem)
  have "cstring_at buf (q + Suc i) = Some (drop (Suc i) s)"
    using Suc.hyps(1)[of "Suc i"] Suc.hyps(2) lt by simp
  then show ?case using b lt assms(4)
    by (subst cstring_at.simps) (simp add: peek_def Cons_nth_drop_Suc)
qed

lemma drop_step: "q < length xs \<Longrightarrow> drop q xs = xs ! q # drop (Suc q) xs"
  by (simp add: Cons_nth_drop_Suc)

lemma at_marker_Miss:
  assumes "p < length chunk" and "length chunk \<le> BUFSZ"
      and "\<not> prefix (take 4 (drop p chunk)) marker"
  shows "at_marker (read_into chunk buf) p = Miss"
proof -
  consider (a) "Suc p \<ge> length chunk"
    | (b) "Suc p < length chunk" "Suc (Suc p) \<ge> length chunk"
    | (c) "Suc (Suc p) < length chunk" "Suc (Suc (Suc p)) \<ge> length chunk"
    | (d) "Suc (Suc (Suc p)) < length chunk"
    by linarith
  then show ?thesis
  proof cases
    case a
    then show ?thesis using assms
      by (simp add: at_marker_def peek_def eval_nat_numeral drop_step marker_def)
  next
    case b
    then show ?thesis using assms
      by (simp add: at_marker_def peek_def eval_nat_numeral drop_step marker_def)
  next
    case c
    then show ?thesis using assms
      by (simp add: at_marker_def peek_def eval_nat_numeral drop_step marker_def)
  next
    case d
    then show ?thesis using assms
      by (simp add: at_marker_def peek_def eval_nat_numeral drop_step marker_def)
  qed
qed

lemma at_marker_Hit:
  assumes "p + 3 < BUFSZ" and "buf p = CHR ''@''" and "buf (p + 1) = CHR ''(''"
      and "buf (p + 2) = CHR ''#''" and "buf (p + 3) = CHR '')''"
  shows "at_marker buf p = Hit"
  using assms by (simp add: at_marker_def peek_def)

lemma on_match_between:
  assumes "\<And>j. j < length s \<Longrightarrow> buf (p + 4 + j) = s ! j"
      and "buf (p + 4 + length s) = NL"
      and "p + 4 + length s < BUFSZ"
      and "NUL \<notin> set s" and "NL \<notin> set s" and "s \<noteq> []" and "strdup_ok e"
  shows "on_match e buf p tr = (Returned (Some s), tr @ [EvClose, EvStrdup])"
proof -
  have nn: "\<And>j. j < length s \<Longrightarrow> buf (p + 4 + j) \<noteq> NUL \<and> buf (p + 4 + j) \<noteq> NL"
    using assms(1,4,5) by (metis nth_mem)
  have pos: "strpchr buf (p + 4) NL 0 = Some (length s)"
    using strpchr_finds[where buf = buf and q = "p + 4" and c = NL and n = "length s" and i = 0]
      nn assms(2,3) by simp
  let ?buf' = "buf(p + 4 + length s := NUL)"
  have "cstring_at ?buf' (p + 4 + 0) = Some (drop 0 s)"
    by (rule cstring_at_reads) (use assms in simp_all)
  then have dup: "cstring_at ?buf' (p + 4) = Some s" by simp
  show ?thesis
    using pos dup assms(6,7) by (simp add: on_match_def Let_def)
qed

lemma read_loop_eof: "read_loop e buf [] tr = (Returned None, tr @ [EvRead 0, EvClose])"
  by (subst read_loop.simps) simp

lemma BUFSZ_pos [simp]: "0 < BUFSZ"
  by (simp add: BUFSZ_def)

lemma read_loop_step:
  assumes "file \<noteq> []"
  shows "read_loop e buf file tr =
     (case scan_chunk (read_into (take BUFSZ file) buf) (length (take BUFSZ file)) 0 of
        Found p \<Rightarrow> on_match e (read_into (take BUFSZ file) buf) p
                     (tr @ [EvRead (length (take BUFSZ file))])
      | Overrun \<Rightarrow> (Undefined, tr @ [EvRead (length (take BUFSZ file))])
      | Absent \<Rightarrow> read_loop e (read_into (take BUFSZ file) buf) (drop BUFSZ file)
                     (tr @ [EvRead (length (take BUFSZ file))]))"
  using assms by (subst read_loop.simps) (simp add: Let_def)

lemma chunk_window:
  "take 4 (drop p (take BUFSZ file)) = take (min 4 (BUFSZ - p)) (drop p file)"
  by (simp add: drop_take min.commute)

lemma scan_clean_chunk:
  assumes "\<forall>p<length (take BUFSZ file). \<not> marker_starts file p"
  shows "scan_chunk (read_into (take BUFSZ file) buf) (length (take BUFSZ file)) 0 = Absent"
proof (rule scan_chunk_Absent)
  fix r assume r: "r < length (take BUFSZ file)"
  then have rb: "r < BUFSZ" by simp
  from assms r have "\<not> marker_starts file r" by blast
  then have "\<not> prefix (take 4 (drop r (take BUFSZ file))) marker"
    using rb by (simp add: marker_starts_def chunk_window)
  then show "at_marker (read_into (take BUFSZ file) buf) r = Miss"
    using r by (intro at_marker_Miss) simp_all
qed

lemma marker_starts_shift:
  "marker_starts (drop BUFSZ file) p = marker_starts file (p + BUFSZ)"
  by (simp add: marker_starts_def add.commute)

lemma found_in_chunk:
  assumes found: "scan_chunk (read_into (take BUFSZ file) buf) (length (take BUFSZ file)) 0 = Found p"
      and rest: "drop (p + 4) (take BUFSZ file) = s @ NL # rest"
      and "NUL \<notin> set s" and "NL \<notin> set s" and "s \<noteq> []" and "strdup_ok e"
  shows "read_loop e buf file tr =
           (Returned (Some s), tr @ [EvRead (length (take BUFSZ file)), EvClose, EvStrdup])"
proof -
  let ?chunk = "take BUFSZ file"
  let ?buf = "read_into ?chunk buf"
  have len: "length ?chunk = p + 4 + length s + 1 + length rest"
  proof -
    have "length (drop (p + 4) ?chunk) = length s + 1 + length rest"
      using rest by simp
    moreover have "p + 4 < length ?chunk"
    proof -
      have "drop (p + 4) ?chunk \<noteq> []" using rest by simp
      then have "\<not> length ?chunk \<le> p + 4" using drop_eq_Nil by blast
      then show ?thesis by linarith
    qed
    ultimately show ?thesis by simp
  qed
  have le: "length ?chunk \<le> BUFSZ" by simp
  have nth: "\<And>j. j < length s + 1 + length rest \<Longrightarrow> ?chunk ! (p + 4 + j) = (s @ NL # rest) ! j"
  proof -
    fix j assume "j < length s + 1 + length rest"
    then have "p + 4 + j < length ?chunk" using len by simp
    then have "drop (p + 4) ?chunk ! j = ?chunk ! (p + 4 + j)" by simp
    then show "?chunk ! (p + 4 + j) = (s @ NL # rest) ! j" using rest by simp
  qed
  have ne: "file \<noteq> []" using len by auto
  have b1: "\<And>j. j < length s \<Longrightarrow> ?buf (p + 4 + j) = s ! j"
  proof -
    fix j assume j: "j < length s"
    then have "p + 4 + j < length ?chunk" using len by simp
    then have "?buf (p + 4 + j) = ?chunk ! (p + 4 + j)" by (rule read_into_less)
    also have "\<dots> = (s @ NL # rest) ! j" using j by (intro nth) simp
    also have "\<dots> = s ! j" using j by (simp add: nth_append)
    finally show "?buf (p + 4 + j) = s ! j" .
  qed
  have b2: "?buf (p + 4 + length s) = NL"
  proof -
    have "p + 4 + length s < length ?chunk" using len by simp
    then have "?buf (p + 4 + length s) = ?chunk ! (p + 4 + length s)" by (rule read_into_less)
    also have "\<dots> = (s @ NL # rest) ! length s" by (intro nth) simp
    finally show ?thesis by simp
  qed
  have b3: "p + 4 + length s < BUFSZ" using len le by linarith
  have "on_match e ?buf p (tr @ [EvRead (length ?chunk)]) =
          (Returned (Some s), (tr @ [EvRead (length ?chunk)]) @ [EvClose, EvStrdup])"
    using b1 b2 b3 assms(3-6) by (rule on_match_between)
  then show ?thesis
    using found by (simp add: read_loop_step[OF ne])
qed

lemma marker_chunk_found:
  assumes fl: "img = pre @ marker @ s @ NL # post"
      and fit: "length pre + 4 + length s < BUFSZ"
      and first: "\<forall>p<length pre. \<not> marker_starts img p"
  shows "scan_chunk (read_into (take BUFSZ img) buf) (length (take BUFSZ img)) 0
           = Found (length pre)"
    and "drop (length pre + 4) (take BUFSZ img)
           = s @ NL # take (BUFSZ - (length pre + 4 + length s + 1)) post"
proof -
  let ?chunk = "take BUFSZ img"
  let ?buf = "read_into ?chunk buf"
  let ?off = "length pre"
  have lenf: "length img = ?off + 4 + length s + 1 + length post"
    by (simp add: fl marker_def)
  have lenc: "?off + 4 + length s < length ?chunk"
    using fit lenf by simp
  have m: "\<And>j. j < 4 \<Longrightarrow> ?buf (?off + j) = img ! (?off + j)"
  proof -
    fix j :: nat assume j: "j < 4"
    then have "?off + j < length ?chunk" using lenc by simp
    then have "?buf (?off + j) = ?chunk ! (?off + j)" by (rule read_into_less)
    also have "\<dots> = img ! (?off + j)" using fit j by simp
    finally show "?buf (?off + j) = img ! (?off + j)" .
  qed
  have hit: "at_marker ?buf ?off = Hit"
  proof (rule at_marker_Hit)
    show "?off + 3 < BUFSZ" using fit by simp
    show "?buf ?off = CHR ''@''" using m[of 0] by (simp add: fl nth_append marker_def)
    show "?buf (?off + 1) = CHR ''(''" using m[of 1] by (simp add: fl nth_append marker_def)
    show "?buf (?off + 2) = CHR ''#''" using m[of 2] by (simp add: fl nth_append marker_def)
    show "?buf (?off + 3) = CHR '')''" using m[of 3] by (simp add: fl nth_append marker_def)
  qed
  have miss: "\<And>r. r < ?off \<Longrightarrow> at_marker ?buf r = Miss"
  proof -
    fix r assume r: "r < ?off"
    then have "\<not> marker_starts img r" using first by blast
    moreover have "r mod BUFSZ = r" using r fit by simp
    ultimately have "\<not> prefix (take 4 (drop r ?chunk)) marker"
      by (simp add: marker_starts_def chunk_window)
    then show "at_marker ?buf r = Miss"
      using r lenc by (intro at_marker_Miss) simp_all
  qed
  show "scan_chunk ?buf (length ?chunk) 0 = Found ?off"
    using lenc miss hit by (intro scan_chunk_Found) simp_all
  have "drop (?off + 4) ?chunk = take (BUFSZ - (?off + 4)) (drop (?off + 4) img)"
    by (simp add: drop_take)
  also have "drop (?off + 4) img = s @ NL # post"
    by (simp add: fl marker_def)
  also have "take (BUFSZ - (?off + 4)) (s @ NL # post)
               = s @ NL # take (BUFSZ - (?off + 4 + length s + 1)) post"
    using fit by (simp add: take_Cons')
  finally show "drop (?off + 4) ?chunk
           = s @ NL # take (BUFSZ - (?off + 4 + length s + 1)) post" .
qed

lemma first_marker_version:
  assumes "img = pre @ marker @ s @ NL # post"
      and "length pre mod BUFSZ + 4 + length s < BUFSZ"
      and "\<forall>p<length pre. \<not> marker_starts img p"
      and "NUL \<notin> set s" and "NL \<notin> set s" and "s \<noteq> []" and "strdup_ok e"
  shows "fst (read_loop e buf img tr) = Returned (Some s)"
  using assms(1,2,3)
proof (induction "length pre" arbitrary: pre img buf tr rule: less_induct)
  case less
  show ?case
  proof (cases "length pre < BUFSZ")
    case True
    then have fit: "length pre + 4 + length s < BUFSZ" using less.prems(2) by simp
    note mc = marker_chunk_found(1)[OF less.prems(1) fit less.prems(3), where buf = buf]
      marker_chunk_found(2)[OF less.prems(1) fit less.prems(3)]
    show ?thesis
      using found_in_chunk[OF mc(1) mc(2) assms(4,5,6,7), where tr = tr] by simp
  next
    case False
    then have ge: "BUFSZ \<le> length pre" by simp
    let ?pre' = "drop BUFSZ pre"
    let ?img' = "drop BUFSZ img"
    have ne: "img \<noteq> []" using less.prems(1) by (simp add: marker_def)
    have full: "length (take BUFSZ img) = BUFSZ" using ge less.prems(1) by simp
    have clean: "\<forall>p<length (take BUFSZ img). \<not> marker_starts img p"
      using less.prems(3) ge full by simp
    have step: "read_loop e buf img tr =
        read_loop e (read_into (take BUFSZ img) buf) ?img' (tr @ [EvRead BUFSZ])"
      using scan_clean_chunk[OF clean, where buf = buf] full by (simp add: read_loop_step[OF ne])
    have f': "?img' = ?pre' @ marker @ s @ NL # post"
      using ge by (simp add: less.prems(1))
    have lt: "length ?pre' < length pre" using ge by (simp add: BUFSZ_def)
    have md: "length ?pre' mod BUFSZ + 4 + length s < BUFSZ"
      using less.prems(2) ge by (simp add: le_mod_geq)
    have cl: "\<forall>p<length ?pre'. \<not> marker_starts ?img' p"
      using less.prems(3) by (simp add: marker_starts_shift)
    show ?thesis
      using less.hyps[OF lt f' md cl] step by simp
  qed
qed

lemma absent_returns_none:
  assumes "\<forall>p<length img. \<not> marker_starts img p"
  shows "\<exists>tr'. read_loop e buf img tr = (Returned None, tr')"
  using assms
proof (induction "length img" arbitrary: img buf tr rule: less_induct)
  case less
  show ?case
  proof (cases "img = []")
    case True
    then show ?thesis by (simp add: read_loop_eof)
  next
    case False
    have clean: "\<forall>p<length (take BUFSZ img). \<not> marker_starts img p"
      using less.prems by simp
    have step: "read_loop e buf img tr =
        read_loop e (read_into (take BUFSZ img) buf) (drop BUFSZ img)
          (tr @ [EvRead (length (take BUFSZ img))])"
      using scan_clean_chunk[OF clean, where buf = buf] by (simp add: read_loop_step[OF False])
    have lt: "length (drop BUFSZ img) < length img" using False by (simp add: BUFSZ_def)
    have cl: "\<forall>p<length (drop BUFSZ img). \<not> marker_starts (drop BUFSZ img) p"
      using less.prems by (simp add: marker_starts_shift)
    show ?thesis using less.hyps[OF lt cl] step by simp
  qed
qed

lemma on_match_returned:
  assumes "on_match e buf p tr = (Returned r, tr')"
  shows "\<exists>s. r = Some s \<and> tr' = tr @ [EvClose, EvStrdup]"
  using assms
  by (auto simp: on_match_def Let_def split: option.splits if_splits) metis+

lemma read_loop_trace:
  assumes "read_loop e buf img tr = (Returned r, tr')"
  shows "\<exists>rs. list_all is_read rs \<and>
           tr' = tr @ rs @ (case r of None \<Rightarrow> [EvClose] | Some s \<Rightarrow> [EvClose, EvStrdup])"
  using assms
proof (induction e buf img tr rule: read_loop.induct)
  case (1 e buf img tr)
  show ?case
  proof (cases "img = []")
    case True
    then have "r = None" "tr' = tr @ [EvRead 0] @ [EvClose]"
      using "1.prems" by (simp_all add: read_loop_eof)
    then show ?thesis by (intro exI[of _ "[EvRead 0]"]) simp
  next
    case False
    let ?chunk = "take BUFSZ img"
    let ?buf = "read_into ?chunk buf"
    let ?tr = "tr @ [EvRead (length ?chunk)]"
    have pos: "0 < length ?chunk" using False by simp
    note step = read_loop_step[OF False, of e buf tr]
    show ?thesis
    proof (cases "scan_chunk ?buf (length ?chunk) 0")
      case (Found p)
      then have "on_match e ?buf p ?tr = (Returned r, tr')"
        using "1.prems" step by simp
      then obtain s where "r = Some s" "tr' = ?tr @ [EvClose, EvStrdup]"
        using on_match_returned by blast
      then show ?thesis by (intro exI[of _ "[EvRead (length ?chunk)]"]) simp
    next
      case Absent
      then have "read_loop e ?buf (drop BUFSZ img) ?tr = (Returned r, tr')"
        using "1.prems" step by simp
      from "1.IH"[OF refl refl refl pos refl Absent this]
      obtain rs where "list_all is_read rs"
        "tr' = ?tr @ rs @ (case r of None \<Rightarrow> [EvClose] | Some s \<Rightarrow> [EvClose, EvStrdup])"
        by blast
      then show ?thesis by (intro exI[of _ "EvRead (length ?chunk) # rs"]) simp
    next
      case Overrun
      then show ?thesis using "1.prems" step by simp
    qed
  qed
qed

lemma fd_open_reads: "list_all is_read rs \<Longrightarrow> fd_open (rs @ es) b = fd_open es b"
proof (induction rs)
  case Nil
  show ?case by simp
next
  case (Cons ev rs)
  then show ?case by (cases ev) simp_all
qed

lemma no_at_no_start:
  assumes "p < length img" and "img ! p \<noteq> CHR ''@''"
  shows "\<not> marker_starts img p"
proof -
  have "0 < min 4 (BUFSZ - p mod BUFSZ)" by simp
  then obtain k where k: "min 4 (BUFSZ - p mod BUFSZ) = Suc k"
    using gr0_implies_Suc by blast
  show ?thesis
    using assms by (simp add: marker_starts_def k drop_step marker_def)
qed

lemma no_at_clean:
  assumes "CHR ''@'' \<notin> set pre"
  shows "\<forall>p<length pre. \<not> marker_starts (pre @ rest) p"
proof (intro allI impI)
  fix p assume p: "p < length pre"
  then have "pre ! p \<noteq> CHR ''@''" using assms by (metis nth_mem)
  then show "\<not> marker_starts (pre @ rest) p"
    using p by (intro no_at_no_start) (simp_all add: nth_append)
qed

lemma kern_ver_read_loop:
  assumes "uid e = 0" and "kernel_image e = Some img"
  shows "get_inst_kern_ver e = read_loop e (stack_bytes e) img [EvOpen]"
  using assms by (simp add: get_inst_kern_ver_def)

subsection \<open>Chunks without a marker start\<close>

lemma skip_chunk_without_at:
  assumes "img \<noteq> []" and "CHR ''@'' \<notin> set (take BUFSZ img)"
  shows "read_loop e buf img tr =
           read_loop e (read_into (take BUFSZ img) buf) (drop BUFSZ img)
             (tr @ [EvRead (length (take BUFSZ img))])"
proof -
  have "\<forall>p<length (take BUFSZ img). \<not> marker_starts (take BUFSZ img @ drop BUFSZ img) p"
    using assms(2) by (rule no_at_clean)
  then have clean: "\<forall>p<length (take BUFSZ img). \<not> marker_starts img p"
    by simp
  show ?thesis
    using scan_clean_chunk[OF clean, where buf = buf] by (simp add: read_loop_step[OF assms(1)])
qed

lemma length_marker [simp]: "length marker = 4"
  by (simp add: marker_def)

lemma marker_occurrence_starts:
  assumes "sublist marker img"
  shows "\<exists>p<length img. marker_starts img p"
proof -
  from assms obtain ps ss where img: "img = ps @ marker @ ss"
    by (auto simp: sublist_def)
  have "drop (length ps) img = marker @ ss" by (simp add: img)
  then have "take (min 4 (BUFSZ - length ps mod BUFSZ)) (drop (length ps) img)
               = take (min 4 (BUFSZ - length ps mod BUFSZ)) marker"
    by simp
  then have "marker_starts img (length ps)"
    by (simp add: marker_starts_def take_is_prefix)
  moreover have "length ps < length img" by (simp add: img)
  ultimately show ?thesis by blast
qed

subsection \<open>Runs on the kernel images\<close>

lemmas kern_eval = get_inst_kern_ver_def read_loop.simps scan_chunk.simps at_marker_def
  peek_def read_into_def on_match_def strpchr.simps cstring_at.simps Let_def BUFSZ_def
  NUL_def NL_def amd64_host_def

lemma e_short: "get_inst_kern_ver (amd64_host\<lparr>kernel_image := Some short_image\<rparr>)
   = (Returned (Some ''ab''), [EvOpen, EvRead 6, EvClose, EvStrdup])"
  by (simp add: kern_eval short_image_def)

lemma e_short2: "get_inst_kern_ver (amd64_host\<lparr>kernel_image := Some short_image,
      stack_bytes := (\<lambda>i. if i = 6 then CHR ''c'' else NUL)\<rparr>)
   = (Returned (Some ''abc''), [EvOpen, EvRead 6, EvClose, EvStrdup])"
  by (simp add: kern_eval short_image_def)

lemma e_nul: "get_inst_kern_ver (amd64_host\<lparr>kernel_image := Some nul_inside_image\<rparr>)
   = (Returned (Some ''ab''), [EvOpen, EvRead 10, EvClose, EvStrdup])"
  by (simp add: kern_eval nul_inside_image_def)

lemma e_nlfirst: "get_inst_kern_ver (amd64_host\<lparr>kernel_image := Some newline_first_image\<rparr>)
   = (Returned (Some ([NL] @ ''abc'')), [EvOpen, EvRead 8, EvClose, EvStrdup])"
  by (simp add: kern_eval newline_first_image_def)

lemma e_two: "get_inst_kern_ver (amd64_host\<lparr>kernel_image := Some two_markers_image\<rparr>)
   = (Returned (Some ''x''), [EvOpen, EvRead 22, EvClose, EvStrdup])"
  by (simp add: kern_eval two_markers_image_def)

lemma e_host: "get_inst_kern_ver amd64_host
   = (Returned (Some ''OpenBSD 7.4''), [EvOpen, EvRead 24, EvClose, EvStrdup])"
  by (simp add: kern_eval)

lemma e_none: "get_inst_kern_ver (amd64_host\<lparr>kernel_image := Some ''bsd''\<rparr>)
   = (Returned None, [EvOpen, EvRead 3, EvRead 0, EvClose])"
  by (simp add: kern_eval)

lemma cut_chunks:
  "take BUFSZ cut_marker_image = ''x(#)hello'' @ [NL] @ replicate 2038 CHR ''.''"
  "drop BUFSZ cut_marker_image = ''@''"
  by (simp_all add: cut_marker_image_def BUFSZ_def)

lemma cut_no_marker: "\<not> sublist marker cut_marker_image"
proof
  assume "sublist marker cut_marker_image"
  then obtain ps ss where img: "cut_marker_image = ps @ marker @ ss"
    by (auto simp: sublist_def)
  have len: "length cut_marker_image = 2049" by (simp add: cut_marker_image_def)
  have "length (ps @ marker @ ss) = 2049" using len img by simp
  then have lps: "length ps + 4 \<le> 2049" by simp
  then have lt: "length ps < length (take BUFSZ cut_marker_image)"
    using len by (simp add: BUFSZ_def)
  have "cut_marker_image ! length ps = CHR ''@''"
    by (simp add: img marker_def)
  moreover have "take BUFSZ cut_marker_image ! length ps = cut_marker_image ! length ps"
    using lt by simp
  ultimately have "CHR ''@'' \<in> set (take BUFSZ cut_marker_image)"
    using lt by (metis nth_mem)
  then show False by (simp add: cut_chunks NL_def)
qed

lemma e_cut: "get_inst_kern_ver (amd64_host\<lparr>kernel_image := Some cut_marker_image\<rparr>)
   = (Returned (Some ''hello''), [EvOpen, EvRead 2048, EvRead 1, EvClose, EvStrdup])"
proof -
  have ne: "cut_marker_image \<noteq> []" by (simp add: cut_marker_image_def)
  have noat: "CHR ''@'' \<notin> set (take BUFSZ cut_marker_image)"
    by (simp add: cut_chunks NL_def)
  show ?thesis
    apply (simp add: get_inst_kern_ver_def amd64_host_def)
    apply (subst skip_chunk_without_at[OF ne noat])
    apply (simp add: cut_chunks)
    apply (simp add: read_loop.simps scan_chunk.simps at_marker_def
      peek_def read_into_def on_match_def strpchr.simps cstring_at.simps Let_def BUFSZ_def
      NUL_def NL_def)
    done
qed

lemma padded_chunks:
  "take BUFSZ padded_image = replicate 6 CHR ''x'' @ ''c'' @ replicate 2041 NUL"
  "drop BUFSZ padded_image = ''@(#)ab''"
  by (simp_all add: padded_image_def BUFSZ_def)

lemma e_padded: "get_inst_kern_ver (amd64_host\<lparr>kernel_image := Some padded_image\<rparr>)
   = (Returned (Some ''abc''), [EvOpen, EvRead 2048, EvRead 6, EvClose, EvStrdup])"
proof -
  have ne: "padded_image \<noteq> []" by (simp add: padded_image_def)
  have noat: "CHR ''@'' \<notin> set (take BUFSZ padded_image)"
    by (simp add: padded_chunks NUL_def)
  show ?thesis
    apply (simp add: get_inst_kern_ver_def amd64_host_def)
    apply (subst skip_chunk_without_at[OF ne noat])
    apply (simp add: padded_chunks)
    apply (simp add: read_loop.simps scan_chunk.simps at_marker_def
      peek_def read_into_def on_match_def strpchr.simps cstring_at.simps Let_def BUFSZ_def
      NUL_def NL_def nth_append)
    done
qed

lemma ikern_9: "match_args cb (prog # ''-ikern'' # rest) = Some 9"
  by (simp add: match_args_arg cb_def)

lemma main_ikern:
  "main e (prog # ''-ikern'' # rest) =
     (case fst (get_inst_kern_ver e) of
        Undefined \<Rightarrow> None
      | Fatal p \<Rightarrow> Some p
      | Returned None \<Rightarrow>
          Some \<lparr>stdout_text = [],
                stderr_text = ''unknown (I can'' @ [CHR 0x27] @ ''t find it!)'' @ [NL],
                exit_status = 0\<rparr>
      | Returned (Some kern_ver) \<Rightarrow>
          Some \<lparr>stdout_text = kern_ver @ [NL], stderr_text = [], exit_status = 0\<rparr>)"
  by (simp add: main_def ikern_9 finished_def split: outcome.splits option.splits)

lemma no_marker_start_unknown:
  assumes "uid e = 0" and "kernel_image e = Some img"
      and "\<forall>p<length img. \<not> marker_starts img p"
  shows "fst (get_inst_kern_ver e) = Returned None"
    and "main e (prog # ''-ikern'' # rest) =
           Some \<lparr>stdout_text = [],
                 stderr_text = ''unknown (I can'' @ [CHR 0x27] @ ''t find it!)'' @ [NL],
                 exit_status = 0\<rparr>"
proof -
  from absent_returns_none[OF assms(3), of e "stack_bytes e" "[EvOpen]"]
  show r: "fst (get_inst_kern_ver e) = Returned None"
    by (auto simp: kern_ver_read_loop[OF assms(1,2)])
  then show "main e (prog # ''-ikern'' # rest) =
           Some \<lparr>stdout_text = [],
                 stderr_text = ''unknown (I can'' @ [CHR 0x27] @ ''t find it!)'' @ [NL],
                 exit_status = 0\<rparr>"
    by (simp add: main_ikern)
qed

lemma newline_right_after_marker_kept:
  "drop 4 newline_first_image = NL # ''abc''
   \<and> fst (get_inst_kern_ver (amd64_host\<lparr>kernel_image := Some newline_first_image\<rparr>))
       = Returned (Some (NL # ''abc''))"
  using e_nlfirst by (simp add: newline_first_image_def)

subsection \<open>What the extractor returns\<close>

text \<open>
  C9: whenever \<open>get_inst_kern_ver\<close> returns to its caller, the descriptor it opened is
  closed: the calls are one \<open>open\<close>, then reads, then one \<open>close\<close>; when a version string
  is returned the \<open>close\<close> comes right before the \<open>strdup\<close>, and when nothing is found
  the \<open>close\<close> is the last call.
\<close>

theorem descriptor_closed_on_return:
  assumes "get_inst_kern_ver e = (Returned r, tr)"
  shows "\<not> fd_open tr False
         \<and> (\<exists>rs. list_all is_read rs \<and>
               tr = EvOpen # rs @ (case r of None \<Rightarrow> [EvClose]
                                    | Some s \<Rightarrow> [EvClose, EvStrdup]))"
proof -
  from assms obtain img where img: "kernel_image e = Some img"
    and rl: "read_loop e (stack_bytes e) img [EvOpen] = (Returned r, tr)"
    by (auto simp: get_inst_kern_ver_def split: if_splits option.splits)
  from read_loop_trace[OF rl] obtain rs where rs: "list_all is_read rs"
    and tr: "tr = [EvOpen] @ rs @ (case r of None \<Rightarrow> [EvClose] | Some s \<Rightarrow> [EvClose, EvStrdup])"
    by blast
  have "\<not> fd_open tr False"
    using fd_open_reads[OF rs] by (cases r) (simp_all add: tr)
  then show ?thesis using rs tr by auto
qed

theorem descriptor_closed_on_return_witness:
  "get_inst_kern_ver amd64_host
     = (Returned (Some ''OpenBSD 7.4''), [EvOpen, EvRead 24, EvClose, EvStrdup])
   \<and> \<not> fd_open [EvOpen, EvRead 24, EvClose, EvStrdup] False
   \<and> get_inst_kern_ver (amd64_host\<lparr>kernel_image := Some ''bsd''\<rparr>)
     = (Returned None, [EvOpen, EvRead 3, EvRead 0, EvClose])
   \<and> \<not> fd_open [EvOpen, EvRead 3, EvRead 0, EvClose] False"
proof -
  from descriptor_closed_on_return[OF e_host]
  have a: "\<not> fd_open [EvOpen, EvRead 24, EvClose, EvStrdup] False" by blast
  from descriptor_closed_on_return[OF e_none]
  have b: "\<not> fd_open [EvOpen, EvRead 3, EvRead 0, EvClose] False" by blast
  show ?thesis by (intro conjI) (rule e_host e_none a b)+
qed

text \<open>
  C1 as stated fails: the image \<open>two_markers_image\<close> holds \<open>@(#)OpenBSD 7.4\<close> and a
  newline inside its only chunk, yet the extractor returns \<open>x\<close>, the string behind the
  marker that comes first.
\<close>

theorem earlier_marker_wins:
  "two_markers_image = (''@(#)x'' @ [NL]) @ ''@(#)OpenBSD 7.4'' @ [NL] @ []
   \<and> length (''@(#)x'' @ [NL]) mod BUFSZ + 16 \<le> BUFSZ
   \<and> fst (get_inst_kern_ver (amd64_host\<lparr>kernel_image := Some two_markers_image\<rparr>))
       = Returned (Some ''x'')
   \<and> ''x'' \<noteq> ''OpenBSD 7.4''"
  using e_two by (simp add: two_markers_image_def BUFSZ_def)

text \<open>
  C1 (amended): when the image holds \<open>@(#)OpenBSD 7.4\<close> and a newline inside one chunk of
  \<open>BUFSZ\<close> bytes, and no earlier position of the image starts the marker (in full, or cut
  short by the end of its chunk), the extractor returns exactly \<open>OpenBSD 7.4\<close>, provided
  the caller is root and the copy can be allocated.
\<close>

theorem first_marker_openbsd_version:
  assumes "uid e = 0"
      and "kernel_image e = Some (pre @ ''@(#)OpenBSD 7.4'' @ [NL] @ post)"
      and "length pre mod BUFSZ + 16 \<le> BUFSZ"
      and "\<forall>p<length pre. \<not> marker_starts (pre @ ''@(#)OpenBSD 7.4'' @ [NL] @ post) p"
      and "strdup_ok e"
  shows "fst (get_inst_kern_ver e) = Returned (Some ''OpenBSD 7.4'')"
proof -
  let ?img = "pre @ ''@(#)OpenBSD 7.4'' @ [NL] @ post"
  have img: "?img = pre @ marker @ ''OpenBSD 7.4'' @ NL # post"
    by (simp add: marker_def)
  have fit: "length pre mod BUFSZ + 4 + length ''OpenBSD 7.4'' < BUFSZ"
    using assms(3) by simp
  have "fst (read_loop e (stack_bytes e) ?img [EvOpen]) = Returned (Some ''OpenBSD 7.4'')"
    using img fit assms(4)
    by (rule first_marker_version) (simp_all add: assms(5) NL_def NUL_def)
  then show ?thesis
    by (simp only: kern_ver_read_loop[OF assms(1,2)])
qed

theorem first_marker_openbsd_version_witness:
  "uid amd64_host = 0
   \<and> kernel_image amd64_host = Some ((''bsd'' @ [NUL]) @ ''@(#)OpenBSD 7.4'' @ [NL] @ ''more'')
   \<and> length (''bsd'' @ [NUL]) mod BUFSZ + 16 \<le> BUFSZ
   \<and> list_all (\<lambda>p. \<not> marker_starts ((''bsd'' @ [NUL]) @ ''@(#)OpenBSD 7.4'' @ [NL] @ ''more'') p)
        [0..<length (''bsd'' @ [NUL])]
   \<and> strdup_ok amd64_host
   \<and> fst (get_inst_kern_ver amd64_host) = Returned (Some ''OpenBSD 7.4'')
   \<and> length (replicate 3000 CHR ''x'') mod BUFSZ + 16 \<le> BUFSZ
   \<and> fst (get_inst_kern_ver (amd64_host\<lparr>kernel_image :=
             Some (replicate 3000 CHR ''x'' @ ''@(#)OpenBSD 7.4'' @ [NL] @ ''more'')\<rparr>))
       = Returned (Some ''OpenBSD 7.4'')"
proof -
  have h1: "uid amd64_host = 0" by (simp add: amd64_host_def)
  have h2: "kernel_image amd64_host = Some ((''bsd'' @ [NUL]) @ ''@(#)OpenBSD 7.4'' @ [NL] @ ''more'')"
    by (simp add: amd64_host_def)
  have h3: "length (''bsd'' @ [NUL]) mod BUFSZ + 16 \<le> BUFSZ" by (simp add: BUFSZ_def)
  have h4: "\<forall>p<length (''bsd'' @ [NUL]).
      \<not> marker_starts ((''bsd'' @ [NUL]) @ ''@(#)OpenBSD 7.4'' @ [NL] @ ''more'') p"
    by (rule no_at_clean) (simp add: NUL_def)
  have h5: "strdup_ok amd64_host" by (simp add: amd64_host_def)
  have h4': "list_all (\<lambda>p. \<not> marker_starts ((''bsd'' @ [NUL]) @ ''@(#)OpenBSD 7.4'' @ [NL] @ ''more'') p)
        [0..<length (''bsd'' @ [NUL])]"
    unfolding list_all_iff using h4 by simp
  note c = first_marker_openbsd_version[OF h1 h2 h3 h4 h5]
  let ?far = "amd64_host\<lparr>kernel_image :=
             Some (replicate 3000 CHR ''x'' @ ''@(#)OpenBSD 7.4'' @ [NL] @ ''more'')\<rparr>"
  have g1: "uid ?far = 0" by (simp add: amd64_host_def)
  have g2: "kernel_image ?far
              = Some (replicate 3000 CHR ''x'' @ ''@(#)OpenBSD 7.4'' @ [NL] @ ''more'')"
    by simp
  have g3: "length (replicate 3000 CHR ''x'') mod BUFSZ + 16 \<le> BUFSZ"
    by (simp add: BUFSZ_def)
  have g4: "\<forall>p<length (replicate 3000 CHR ''x'').
      \<not> marker_starts (replicate 3000 CHR ''x'' @ ''@(#)OpenBSD 7.4'' @ [NL] @ ''more'') p"
    by (rule no_at_clean) simp
  have g5: "strdup_ok ?far" by (simp add: amd64_host_def)
  note d = first_marker_openbsd_version[OF g1 g2 g3 g4 g5]
  show ?thesis
    by (intro conjI) (rule h1 h2 h3 h4' h5 c g3 d)+
qed

text \<open>
  C3 as stated fails: in \<open>nul_inside_image\<close> the marker is matched at the start of the
  chunk and the first newline behind it comes after \<open>ab\<close>, a NUL byte and \<open>cd\<close>; the
  returned string is \<open>ab\<close>, since a C string ends at the first NUL.
\<close>

theorem nul_before_newline_ends_version:
  "scan_chunk (read_into (take BUFSZ nul_inside_image) (stack_bytes amd64_host))
      (length (take BUFSZ nul_inside_image)) 0 = Found 0
   \<and> drop (0 + 4) (take BUFSZ nul_inside_image) = (''ab'' @ [NUL] @ ''cd'') @ NL # []
   \<and> NL \<notin> set (''ab'' @ [NUL] @ ''cd'')
   \<and> fst (get_inst_kern_ver (amd64_host\<lparr>kernel_image := Some nul_inside_image\<rparr>))
       = Returned (Some ''ab'')
   \<and> ''ab'' \<noteq> ''ab'' @ [NUL] @ ''cd''"
proof -
  have "scan_chunk (read_into (take BUFSZ nul_inside_image) (stack_bytes amd64_host))
      (length (take BUFSZ nul_inside_image)) 0 = Found 0"
    by (simp add: scan_chunk.simps at_marker_def peek_def read_into_def BUFSZ_def
        nul_inside_image_def)
  moreover have "drop (0 + 4) (take BUFSZ nul_inside_image) = (''ab'' @ [NUL] @ ''cd'') @ NL # []"
    by (simp add: BUFSZ_def nul_inside_image_def)
  moreover have "NL \<notin> set (''ab'' @ [NUL] @ ''cd'')" by (simp add: NL_def NUL_def)
  ultimately show ?thesis using e_nul by (simp add: NUL_def NL_def)
qed

text \<open>
  C3 (amended): when the marker is matched at \<open>p\<close> in a chunk, and the bytes of the chunk
  behind the marker are a non-empty \<open>s\<close> without NUL and newline bytes followed by a
  newline, the extractor returns exactly \<open>s\<close> (provided the copy can be allocated).
\<close>

theorem version_between_marker_and_newline:
  assumes "scan_chunk (read_into (take BUFSZ img) buf) (length (take BUFSZ img)) 0 = Found p"
      and "drop (p + 4) (take BUFSZ img) = s @ NL # rest"
      and "NUL \<notin> set s" and "NL \<notin> set s" and "s \<noteq> []" and "strdup_ok e"
  shows "fst (read_loop e buf img tr) = Returned (Some s)"
  using found_in_chunk[OF assms, where tr = tr] by simp

theorem version_between_marker_and_newline_witness:
  "scan_chunk (read_into (take BUFSZ (''xx@(#)OpenBSD 7.4'' @ [NL] @ ''more'')) (\<lambda>i. NUL))
      (length (take BUFSZ (''xx@(#)OpenBSD 7.4'' @ [NL] @ ''more''))) 0 = Found 2
   \<and> drop (2 + 4) (take BUFSZ (''xx@(#)OpenBSD 7.4'' @ [NL] @ ''more''))
       = ''OpenBSD 7.4'' @ NL # ''more''
   \<and> NUL \<notin> set ''OpenBSD 7.4'' \<and> NL \<notin> set ''OpenBSD 7.4'' \<and> ''OpenBSD 7.4'' \<noteq> []
   \<and> strdup_ok amd64_host
   \<and> fst (read_loop amd64_host (\<lambda>i. NUL) (''xx@(#)OpenBSD 7.4'' @ [NL] @ ''more'') [EvOpen])
       = Returned (Some ''OpenBSD 7.4'')"
proof -
  let ?img = "''xx@(#)OpenBSD 7.4'' @ [NL] @ ''more''"
  have h1: "scan_chunk (read_into (take BUFSZ ?img) (\<lambda>i. NUL)) (length (take BUFSZ ?img)) 0
              = Found 2"
    by (simp add: scan_chunk.simps at_marker_def peek_def read_into_def BUFSZ_def)
  have h2: "drop (2 + 4) (take BUFSZ ?img) = ''OpenBSD 7.4'' @ NL # ''more''"
    by (simp add: BUFSZ_def)
  have h3: "NUL \<notin> set ''OpenBSD 7.4''" by (simp add: NUL_def)
  have h4: "NL \<notin> set ''OpenBSD 7.4''" by (simp add: NL_def)
  have h5: "''OpenBSD 7.4'' \<noteq> []" by simp
  have h6: "strdup_ok amd64_host" by (simp add: amd64_host_def)
  note c = version_between_marker_and_newline[OF h1 h2 h3 h4 h5 h6, of "[EvOpen]"]
  show ?thesis
    by (intro conjI) (rule h1 h2 h3 h4 h5 h6 c)+
qed

text \<open>
  C4 does not hold of the code: the result depends on bytes of \<open>buf\<close> at and behind the
  count that \<open>read\<close> returned. The same six byte image gives \<open>ab\<close> or \<open>abc\<close> with the
  byte that \<open>buf\<close> held at index six before the read; and in \<open>padded_image\<close> the last
  read returns the six bytes \<open>@(#)ab\<close>, while the result \<open>abc\<close> ends with a byte that the
  read before left at index six.
\<close>

theorem residual_bytes_reach_result:
  "kernel_image (amd64_host\<lparr>kernel_image := Some short_image\<rparr>)
     = kernel_image (amd64_host\<lparr>kernel_image := Some short_image,
                               stack_bytes := (\<lambda>i. if i = 6 then CHR ''c'' else NUL)\<rparr>)
   \<and> get_inst_kern_ver (amd64_host\<lparr>kernel_image := Some short_image\<rparr>)
       = (Returned (Some ''ab''), [EvOpen, EvRead 6, EvClose, EvStrdup])
   \<and> get_inst_kern_ver (amd64_host\<lparr>kernel_image := Some short_image,
                                    stack_bytes := (\<lambda>i. if i = 6 then CHR ''c'' else NUL)\<rparr>)
       = (Returned (Some ''abc''), [EvOpen, EvRead 6, EvClose, EvStrdup])
   \<and> drop BUFSZ padded_image = ''@(#)ab''
   \<and> get_inst_kern_ver (amd64_host\<lparr>kernel_image := Some padded_image\<rparr>)
       = (Returned (Some ''abc''), [EvOpen, EvRead 2048, EvRead 6, EvClose, EvStrdup])"
  using e_short e_short2 e_padded padded_chunks(2) by simp

text \<open>
  C7 does not hold of the code: \<open>cut_marker_image\<close> contains the marker nowhere, its last
  read returns the single byte \<open>@\<close>, and the test for the marker goes on into the bytes
  \<open>(#)hello\<close> that the read before left in \<open>buf\<close>; the extractor returns \<open>hello\<close> and the
  program prints it on standard output.
\<close>

theorem cut_marker_matches_stale_bytes:
  "\<not> sublist marker cut_marker_image
   \<and> get_inst_kern_ver (amd64_host\<lparr>kernel_image := Some cut_marker_image\<rparr>)
       = (Returned (Some ''hello''), [EvOpen, EvRead 2048, EvRead 1, EvClose, EvStrdup])
   \<and> main (amd64_host\<lparr>kernel_image := Some cut_marker_image\<rparr>) [''sysver'', ''-ikern'']
       = Some \<lparr>stdout_text = ''hello'' @ [NL], stderr_text = [], exit_status = 0\<rparr>"
  using cut_no_marker e_cut by (simp add: main_ikern)

end
